theory Spec2Isabelle
  imports Complex_Main "HOL-Library.Multiset" "HOL-Library.Product_Lexorder"
begin

section \<open>Waypoints and the geometry of two_opt_optimizer.py\<close>

text \<open>
  A waypoint is the place dictionary handed around by the route services. The
  optimizer reads only \<open>location.lat\<close> and \<open>location.lng\<close>; the other
  keys are the ones the generation service and the response builder read.
  Coordinates are Python floats; they are modelled as exact reals, so rounding
  of the float arithmetic is not part of the model.
\<close>

record place =
  place_id :: string
  name :: string
  category :: string
  search_category :: string
  lat :: real
  lng :: real
  rating :: real
  distance_km :: real

type_synonym point = "real \<times> real"

definition extract_point :: "place \<Rightarrow> point" where
  "extract_point waypoint = (lat waypoint, lng waypoint)"

text \<open>\<open>_orientation\<close>: 0 collinear, 1 clockwise, 2 counter-clockwise.\<close>

fun orientation :: "point \<Rightarrow> point \<Rightarrow> point \<Rightarrow> nat" where
  "orientation (ax, ay) (bx, b_y) (cx, cy) =
     (let val = (b_y - ay) * (cx - bx) - (bx - ax) * (cy - b_y)
      in if \<bar>val\<bar> < 1 / 10 ^ 12 then 0 else if val > 0 then 1 else 2)"

text \<open>\<open>_on_segment a b c\<close>: b lies in the bounding box of segment ac.\<close>

fun on_segment :: "point \<Rightarrow> point \<Rightarrow> point \<Rightarrow> bool" where
  "on_segment (ax, ay) (bx, b_y) (cx, cy) =
     (min ax cx - 1 / 10 ^ 12 \<le> bx \<and> bx \<le> max ax cx + 1 / 10 ^ 12
      \<and> min ay cy - 1 / 10 ^ 12 \<le> b_y \<and> b_y \<le> max ay cy + 1 / 10 ^ 12)"

definition segments_intersect :: "point \<Rightarrow> point \<Rightarrow> point \<Rightarrow> point \<Rightarrow> bool" where
  "segments_intersect p1 p2 p3 p4 =
     (let o1 = orientation p1 p2 p3;
          o2 = orientation p1 p2 p4;
          o3 = orientation p3 p4 p1;
          o4 = orientation p3 p4 p2
      in if o1 \<noteq> o2 \<and> o3 \<noteq> o4 then True
         else if o1 = 0 \<and> on_segment p1 p3 p2 then True
         else if o2 = 0 \<and> on_segment p1 p4 p2 then True
         else if o3 = 0 \<and> on_segment p3 p1 p4 then True
         else if o4 = 0 \<and> on_segment p3 p2 p4 then True
         else False)"

section \<open>The 2-opt loop\<close>

text \<open>
  The index pairs visited by the two nested \<open>for\<close> loops, in visiting order:
  \<open>i\<close> in \<open>range(n - 3)\<close>, \<open>j\<close> in \<open>range(i + 2, n - 1)\<close>.
\<close>

definition edge_pairs :: "nat \<Rightarrow> (nat \<times> nat) list" where
  "edge_pairs n = concat (map (\<lambda>i. map (\<lambda>j. (i, j)) [i + 2 ..< n - 1]) [0 ..< n - 3])"

text \<open>The test of the inner loop body on edges \<open>(i, i+1)\<close> and \<open>(j, j+1)\<close>.\<close>

definition crossing_at :: "place list \<Rightarrow> nat \<times> nat \<Rightarrow> bool" where
  "crossing_at optimized = (\<lambda>(i, j).
     segments_intersect (extract_point (optimized ! i)) (extract_point (optimized ! (i + 1)))
                        (extract_point (optimized ! j)) (extract_point (optimized ! (j + 1))))"

text \<open>One scan: the first pair at which the test succeeds (both loops break there).\<close>

definition find_crossing :: "place list \<Rightarrow> (nat \<times> nat) option" where
  "find_crossing optimized = List.find (crossing_at optimized) (edge_pairs (length optimized))"

text \<open>\<open>optimized[i + 1 : j + 1] = reversed(optimized[i + 1 : j + 1])\<close>\<close>

definition reverse_segment :: "'a list \<Rightarrow> nat \<Rightarrow> nat \<Rightarrow> 'a list" where
  "reverse_segment optimized i j =
     take (i + 1) optimized @ rev (take (j - i) (drop (i + 1) optimized)) @ drop (j + 1) optimized"

text \<open>
  The \<open>while improved\<close> loop. Each round is one scan; a scan that finds a pair
  reverses and starts the next round, a scan that finds none ends the loop. The
  source has no bound on the number of rounds, so the loop is a partial function:
  \<open>None\<close> is a run that never returns.
\<close>

partial_function (option) two_opt_loop :: "place list \<Rightarrow> place list option" where
  "two_opt_loop optimized =
     (case find_crossing optimized of
        None \<Rightarrow> Some optimized
      | Some (i, j) \<Rightarrow> two_opt_loop (reverse_segment optimized i j))"

definition optimize_waypoint_order_by_two_opt :: "place list \<Rightarrow> place list option" where
  "optimize_waypoint_order_by_two_opt waypoints =
     (if length waypoints < 4 then Some waypoints else two_opt_loop waypoints)"

section \<open>Concrete waypoint sequences\<close>

text \<open>
  A four-point bowtie whose diagonals cross, the quadrilateral the loop turns it
  into, and a closed tour whose first and last waypoint are the same place.
\<close>

definition mk_place :: "string \<Rightarrow> real \<Rightarrow> real \<Rightarrow> place" where
  "mk_place n la lo = \<lparr>place_id = n, name = n, category = ''park'', search_category = ''park'',
     lat = la, lng = lo, rating = 4, distance_km = 1\<rparr>"

definition bowtie :: "place list" where
  "bowtie = [mk_place ''p'' 0 0, mk_place ''q'' 1 1, mk_place ''r'' 1 0, mk_place ''s'' 0 1]"

definition untangled :: "place list" where
  "untangled = [mk_place ''p'' 0 0, mk_place ''r'' 1 0, mk_place ''q'' 1 1, mk_place ''s'' 0 1]"

definition closed_tour :: "place list" where
  "closed_tour = [mk_place ''a'' 0 0, mk_place ''b'' 1 0, mk_place ''c'' 0 1, mk_place ''a'' 0 0]"

definition closed_tour_rev :: "place list" where
  "closed_tour_rev = [mk_place ''a'' 0 0, mk_place ''c'' 0 1, mk_place ''b'' 1 0, mk_place ''a'' 0 0]"

section \<open>Scores\<close>

text \<open>
  A score is a Python float: \<open>float(score)\<close> in \<open>rank_routes\<close>. Finite values
  are modelled as reals; NaN and the two infinities are values of their own.
  \<open>float_lt\<close> is Python's \<open><\<close> and \<open>float_ge\<close> its \<open>>=\<close>: every comparison
  with NaN is false.
\<close>

datatype score = NaN | NegInf | Fin real | PosInf

fun float_lt :: "score \<Rightarrow> score \<Rightarrow> bool" where
  "float_lt NaN _ = False"
| "float_lt _ NaN = False"
| "float_lt NegInf NegInf = False"
| "float_lt NegInf _ = True"
| "float_lt (Fin x) NegInf = False"
| "float_lt (Fin x) (Fin y) = (x < y)"
| "float_lt (Fin x) PosInf = True"
| "float_lt PosInf _ = False"

definition float_ge :: "score \<Rightarrow> score \<Rightarrow> bool" where
  "float_ge a b = (a \<noteq> NaN \<and> b \<noteq> NaN \<and> \<not> float_lt a b)"

text \<open>
  The position of a score in the order of the floats without NaN, as a pair
  compared lexicographically. It is used to state and prove what sorting does
  when no key is NaN; the program never computes it.
\<close>

fun score_rank :: "score \<Rightarrow> int \<times> real" where
  "score_rank NaN = (2, 0)"
| "score_rank NegInf = (- 1, 0)"
| "score_rank (Fin x) = (0, x)"
| "score_rank PosInf = (1, 0)"

section \<open>Python's sort\<close>

text \<open>
  \<open>sorted\<close> is CPython's \<open>list.sort\<close>, which compares keys with \<open><\<close> only.
  On a list of fewer than 64 elements it takes the longest run at the front
  that is non-descending or strictly descending (\<open>count_run\<close>; a descending
  run is reversed) and inserts the remaining elements one by one at the place a
  binary search gives (\<open>binarysort\<close>). Longer lists are cut into such runs
  that are then merged; this model sorts them the same way as short ones, which
  gives the same list whenever the keys are totally ordered, since a stable
  sort has one result.
\<close>

fun run_asc :: "('a \<Rightarrow> 'a \<Rightarrow> bool) \<Rightarrow> 'a \<Rightarrow> 'a list \<Rightarrow> nat" where
  "run_asc lt prev [] = 0"
| "run_asc lt prev (x # xs) = (if lt x prev then 0 else Suc (run_asc lt x xs))"

fun run_desc :: "('a \<Rightarrow> 'a \<Rightarrow> bool) \<Rightarrow> 'a \<Rightarrow> 'a list \<Rightarrow> nat" where
  "run_desc lt prev [] = 0"
| "run_desc lt prev (x # xs) = (if lt x prev then Suc (run_desc lt x xs) else 0)"

text \<open>Length of the run at the front, and whether it is descending.\<close>

fun count_run :: "('a \<Rightarrow> 'a \<Rightarrow> bool) \<Rightarrow> 'a list \<Rightarrow> nat \<times> bool" where
  "count_run lt [] = (0, False)"
| "count_run lt [x] = (1, False)"
| "count_run lt (x # y # xs) =
     (if lt y x then (2 + run_desc lt y xs, True) else (2 + run_asc lt y xs, False))"

text \<open>The binary search of \<open>binarysort\<close> for the place of \<open>pivot\<close> in \<open>xs[l:r]\<close>.\<close>

function bisect :: "('a \<Rightarrow> 'a \<Rightarrow> bool) \<Rightarrow> 'a \<Rightarrow> 'a list \<Rightarrow> nat \<Rightarrow> nat \<Rightarrow> nat" where
  "bisect lt pivot xs l r =
     (if l < r then
        (let p = l + (r - l) div 2
         in if lt pivot (xs ! p) then bisect lt pivot xs l p else bisect lt pivot xs (p + 1) r)
      else l)"
  by pat_completeness auto
termination
  by (relation "measure (\<lambda>(lt, pivot, xs, l, r). r - l)") auto

declare bisect.simps [simp del]

fun binarysort :: "('a \<Rightarrow> 'a \<Rightarrow> bool) \<Rightarrow> 'a list \<Rightarrow> 'a list \<Rightarrow> 'a list" where
  "binarysort lt front [] = front"
| "binarysort lt front (pivot # rest) =
     (let l = bisect lt pivot front 0 (length front)
      in binarysort lt (take l front @ pivot # drop l front) rest)"

definition list_sort :: "('a \<Rightarrow> 'a \<Rightarrow> bool) \<Rightarrow> 'a list \<Rightarrow> 'a list" where
  "list_sort lt xs =
     (if length xs < 2 then xs
      else
        (let (n, descending) = count_run lt xs;
             run = take n xs
         in binarysort lt (if descending then rev run else run) (drop n xs)))"

text \<open>
  \<open>sorted(xs, key=k, reverse=True)\<close>: with \<open>reverse=True\<close> the list is
  reversed, sorted ascending and reversed again, which keeps equal keys in
  their input order.
\<close>

definition sorted_reverse :: "('a \<Rightarrow> score) \<Rightarrow> 'a list \<Rightarrow> 'a list" where
  "sorted_reverse k xs = rev (list_sort (\<lambda>a b. float_lt (k a) (k b)) (rev xs))"

section \<open>Requests and route candidates\<close>

text \<open>\<open>RouteCriteria\<close> of models/request.py; \<open>center\<close> is the pair (lat, lng).\<close>

record criteria =
  center :: point
  radius_km :: real
  duration_min :: "int option"
  distance_km_c :: "real option"
  include_categories :: "string list"
  avoid_categories :: "string list"
  pet_friendly :: bool
  elevation_gain_min_m :: "int option"
  route_type :: string
  time_window :: "string option"

type_synonym viewport = "(string \<times> point) list"

text \<open>
  What \<open>get_directions\<close> hands back when it returns a non-empty dictionary. A
  key that may be absent is an option; \<open>overview_polyline\<close> holds the value of
  its \<open>points\<close> entry.
\<close>

record route_data =
  rd_overview_polyline :: "string option"
  rd_duration :: "string option"
  rd_distance :: "int option"
  rd_viewport :: "viewport option"

text \<open>
  The candidate dictionary built in \<open>generate_candidate_routes\<close>. The key
  \<open>score\<close> is not among the keys written there; \<open>rank_routes\<close> adds it, so it
  is an option. \<open>categories_used\<close> is \<open>list(set(...))\<close>, a list whose order
  the source does not determine: it is modelled as the set.
\<close>

record route_info =
  overview_polyline :: "string option"
  duration :: string
  distance :: int
  viewport :: viewport

record waypoints_info =
  count_wp :: nat
  places :: "place list"
  place_ids :: "string list"

record metadata =
  center_md :: point
  search_radius_km :: real
  route_type_md :: string
  categories_used :: "string set"

record route =
  route_id :: string
  route_info :: route_info
  waypoints :: waypoints_info
  metadata :: metadata
  criteria :: criteria
  score :: "score option"

section \<open>ranking_service.py\<close>

text \<open>
  The candidates are dictionaries that \<open>rank_routes\<close> mutates in place and
  returns in a new list. They live in a heap, addressed by numbers; a list of
  candidates is a list of addresses, so that two positions of a list may name
  the same dictionary.
\<close>

type_synonym addr = nat
type_synonym heap = "addr \<Rightarrow> route"

text \<open>
  The persisted model is an external collaborator. It answers with a list of
  scores or raises (\<open>None\<close>); it is taken to read the candidates without
  writing to them. Each call is recorded in a log.
\<close>

record scorer =
  has_predict_batch :: bool
  predict_batch :: "route list \<Rightarrow> score list option"
  predict :: "route list \<Rightarrow> score list option"

datatype scorer_call = PredictBatch "route list" | Predict "route list"

datatype error = ScorerFailure

text \<open>\<open>for route, score in zip(routes, scores): route["score"] = float(score)\<close>\<close>

fun write_scores :: "heap \<Rightarrow> (addr \<times> score) list \<Rightarrow> heap" where
  "write_scores h [] = h"
| "write_scores h ((a, s) # rest) = write_scores (h(a := (h a)\<lparr>score := Some s\<rparr>)) rest"

text \<open>The sort key \<open>route.get("score", 0.0)\<close>.\<close>

definition score_key :: "heap \<Rightarrow> addr \<Rightarrow> score" where
  "score_key h a = (case score (h a) of None \<Rightarrow> Fin 0 | Some s \<Rightarrow> s)"

definition rank_routes ::
  "scorer \<Rightarrow> addr list \<Rightarrow> heap \<times> scorer_call list \<Rightarrow> (error + addr list) \<times> heap \<times> scorer_call list" where
  "rank_routes m routes = (\<lambda>(h, log).
     if routes = [] then (Inr [], h, log)
     else
       let arg = map h routes;
           answer = (if has_predict_batch m then predict_batch m arg else predict m arg);
           log' = log @ [if has_predict_batch m then PredictBatch arg else Predict arg]
       in case answer of
            None \<Rightarrow> (Inl ScorerFailure, h, log')
          | Some scores \<Rightarrow>
              let h' = write_scores h (zip routes scores)
              in (Inr (sorted_reverse (score_key h') routes), h', log'))"

section \<open>generation_service.py\<close>

text \<open>Decimal rendering of a number, as an f-string does it.\<close>

fun string_of_nat :: "nat \<Rightarrow> string" where
  "string_of_nat n =
     (if n < 10 then [char_of (48 + n)]
      else string_of_nat (n div 10) @ [char_of (48 + n mod 10)])"

text \<open>
  What the generation service cannot decide by itself: the map service (place
  search and directions; a call may raise), the random source, and the bearing
  formula, which is trigonometry on floats. The directions call and the random
  draws are indexed by the attempt that makes them. \<open>sample idx pool k\<close> is
  \<open>random.sample(pool, k)\<close> of attempt \<open>idx\<close>.
\<close>

datatype directions_result = DirRaise | DirReturn "route_data option"

record env =
  find_nearby_places :: "point \<Rightarrow> real \<Rightarrow> string list \<Rightarrow> place list option"
  get_directions :: "nat \<Rightarrow> point \<Rightarrow> string list \<Rightarrow> directions_result"
  randint :: "nat \<Rightarrow> nat"
  sample :: "nat \<Rightarrow> place list \<Rightarrow> nat \<Rightarrow> place list"
  calculate_bearing :: "real \<Rightarrow> real \<Rightarrow> real \<Rightarrow> real \<Rightarrow> real"

text \<open>
  The contract of the random source over the attempts \<open>0 ..< max_routes\<close>:
  \<open>random.randint(2, 3)\<close> is 2 or 3, and \<open>random.sample(pool, k)\<close> with
  \<open>k \<le> len(pool)\<close> is a list of \<open>k\<close> elements of the pool.
\<close>

definition valid_random :: "env \<Rightarrow> place list \<Rightarrow> nat \<Rightarrow> bool" where
  "valid_random e pool max_routes =
     (\<forall>idx \<in> set [0 ..< max_routes].
        (randint e idx = 2 \<or> randint e idx = 3) \<and>
        (randint e idx \<le> length pool \<longrightarrow>
           length (sample e idx pool (randint e idx)) = randint e idx \<and>
           set (sample e idx pool (randint e idx)) \<subseteq> set pool))"

text \<open>\<open>_optimize_waypoint_order_by_angle\<close>: stable sort by bearing, then the 2-opt pass.\<close>

definition optimize_waypoint_order_by_angle :: "env \<Rightarrow> point \<Rightarrow> place list \<Rightarrow> place list option" where
  "optimize_waypoint_order_by_angle e center_tuple wps =
     (if length wps \<le> 1 then Some wps
      else optimize_waypoint_order_by_two_opt
             (sort_key (\<lambda>wp. calculate_bearing e (fst center_tuple) (snd center_tuple) (lat wp) (lng wp)) wps))"

definition target_categories :: "string list" where
  "target_categories = [''park'', ''nature'', ''attraction'', ''restaurant'']"

text \<open>One round of the search loop: a raising call is skipped, places are tagged.\<close>

definition search_category_places :: "env \<Rightarrow> point \<Rightarrow> real \<Rightarrow> string \<Rightarrow> place list" where
  "search_category_places e center_tuple search_radius cat =
     (case find_nearby_places e center_tuple search_radius [cat] of
        None \<Rightarrow> []
      | Some found \<Rightarrow> map (\<lambda>p. p\<lparr>search_category := cat\<rparr>) found)"

definition all_waypoint_candidates :: "env \<Rightarrow> criteria \<Rightarrow> place list" where
  "all_waypoint_candidates e crit =
     concat (map (search_category_places e (center crit) (radius_km crit / 2)) target_categories)"

text \<open>\<open>selected_waypoints\<close> of attempt \<open>route_idx\<close>.\<close>

definition select_waypoints :: "env \<Rightarrow> place list \<Rightarrow> nat \<Rightarrow> place list" where
  "select_waypoints e pool route_idx =
     (let num_waypoints = randint e route_idx
      in if length pool < num_waypoints then pool
         else sample e route_idx pool num_waypoints)"

text \<open>\<open>route_candidate\<close>, the dictionary of step 5.\<close>

definition route_candidate :: "criteria \<Rightarrow> nat \<Rightarrow> place list \<Rightarrow> route_data \<Rightarrow> route" where
  "route_candidate crit route_idx optimized_waypoints rd =
     \<lparr>route_id = ''route_'' @ string_of_nat (route_idx + 1),
      route_info = \<lparr>overview_polyline = rd_overview_polyline rd,
                    duration = (case rd_duration rd of None \<Rightarrow> ''0s'' | Some d \<Rightarrow> d),
                    distance = (case rd_distance rd of None \<Rightarrow> 0 | Some d \<Rightarrow> d),
                    viewport = (case rd_viewport rd of None \<Rightarrow> [] | Some v \<Rightarrow> v)\<rparr>,
      waypoints = \<lparr>count_wp = length optimized_waypoints,
                   places = optimized_waypoints,
                   place_ids = map place_id optimized_waypoints\<rparr>,
      metadata = \<lparr>center_md = center crit,
                  search_radius_km = radius_km crit / 2,
                  route_type_md = route_type crit,
                  categories_used = set (map search_category optimized_waypoints)\<rparr>,
      criteria = crit,
      score = None\<rparr>"

text \<open>
  One round of the attempt loop. The outer option is \<open>None\<close> when the 2-opt pass
  does not return; the inner one is \<open>None\<close> when the attempt is dropped (the
  directions call raised, or returned nothing).
\<close>

definition route_attempt :: "env \<Rightarrow> criteria \<Rightarrow> place list \<Rightarrow> nat \<Rightarrow> route option option" where
  "route_attempt e crit pool route_idx =
     (case optimize_waypoint_order_by_angle e (center crit) (select_waypoints e pool route_idx) of
        None \<Rightarrow> None
      | Some optimized_waypoints \<Rightarrow>
          (case get_directions e route_idx (center crit) (map place_id optimized_waypoints) of
             DirRaise \<Rightarrow> Some None
           | DirReturn None \<Rightarrow> Some None
           | DirReturn (Some rd) \<Rightarrow>
               Some (Some (route_candidate crit route_idx optimized_waypoints rd))))"

fun attempts :: "env \<Rightarrow> criteria \<Rightarrow> place list \<Rightarrow> nat list \<Rightarrow> route list \<Rightarrow> route list option" where
  "attempts e crit pool [] candidate_routes = Some candidate_routes"
| "attempts e crit pool (route_idx # rest) candidate_routes =
     (case route_attempt e crit pool route_idx of
        None \<Rightarrow> None
      | Some None \<Rightarrow> attempts e crit pool rest candidate_routes
      | Some (Some c) \<Rightarrow> attempts e crit pool rest (candidate_routes @ [c]))"

definition generate_candidate_routes :: "env \<Rightarrow> criteria \<Rightarrow> nat \<Rightarrow> route list option" where
  "generate_candidate_routes e crit max_routes =
     (let pool = all_waypoint_candidates e crit
      in if pool = [] then Some []
         else attempts e crit pool [0 ..< max_routes] [])"

section \<open>response_builder.py and models/response.py\<close>

record location_point =
  lat_lp :: real
  lng_lp :: real
  name_lp :: "string option"

record waypoint =
  place_id_wp :: string
  name_wp :: string
  category_wp :: string
  search_category_wp :: string
  location :: location_point
  rating_wp :: real
  distance_km_wp :: real

record route_geometry =
  overview_polyline_g :: "string option"
  viewport_g :: viewport

record route_view =
  id_v :: string
  name_v :: string
  distance_v :: int
  duration_v :: string
  waypoints_v :: "waypoint list"
  geometry :: route_geometry
  metadata_v :: metadata
  score_v :: score

record route_response =
  success :: bool
  message :: string
  routes :: "route_view list"
  total_count :: nat
  criteria_rr :: "criteria option"

definition build_waypoint :: "place \<Rightarrow> waypoint" where
  "build_waypoint place_data =
     \<lparr>place_id_wp = place_id place_data,
      name_wp = name place_data,
      category_wp = category place_data,
      search_category_wp = search_category place_data,
      location = \<lparr>lat_lp = lat place_data, lng_lp = lng place_data, name_lp = Some (name place_data)\<rparr>,
      rating_wp = rating place_data,
      distance_km_wp = distance_km place_data\<rparr>"

text \<open>\<open>' & '.join(names)\<close>\<close>

fun join_amp :: "string list \<Rightarrow> string" where
  "join_amp [] = []"
| "join_amp [x] = x"
| "join_amp (x # y # ys) = x @ '' & '' @ join_amp (y # ys)"

definition route_name :: "nat \<Rightarrow> waypoint list \<Rightarrow> string" where
  "route_name i wps =
     (if wps \<noteq> [] then
        (let waypoint_names = map name_wp (take 2 wps)
         in if length wps > 2
            then ''Via '' @ waypoint_names ! 0 @ '', '' @ waypoint_names ! 1
                 @ '' +'' @ string_of_nat (length wps - 2) @ '' more''
            else ''Via '' @ join_amp waypoint_names)
      else ''Route '' @ string_of_nat (i + 1))"

text \<open>
  The body of the \<open>try\<close> for candidate number \<open>i\<close>. On records every key is
  present and has its type, so the \<open>except\<close> branch that skips a malformed
  candidate has nothing to catch.
\<close>

definition build_route :: "nat \<Rightarrow> route \<Rightarrow> route_view" where
  "build_route i route_data =
     (let wps = map build_waypoint (places (waypoints route_data))
      in \<lparr>id_v = route_id route_data,
          name_v = route_name i wps,
          distance_v = distance (route_info route_data),
          duration_v = duration (route_info route_data),
          waypoints_v = wps,
          geometry = \<lparr>overview_polyline_g = overview_polyline (route_info route_data),
                      viewport_g = viewport (route_info route_data)\<rparr>,
          metadata_v = metadata route_data,
          score_v = (case score route_data of None \<Rightarrow> Fin (8 / 10) | Some s \<Rightarrow> s)\<rparr>)"

definition build_response :: "route list \<Rightarrow> route_response" where
  "build_response routes_data =
     (let built = map (\<lambda>(i, r). build_route i r) (enumerate 0 routes_data)
      in \<lparr>success = True,
          message = ''Successfully generated '' @ string_of_nat (length built) @ '' routes'',
          routes = built,
          total_count = length built,
          criteria_rr = None\<rparr>)"

section \<open>route_service.py\<close>

text \<open>
  \<open>RouteService.generate_routes\<close>. The candidates are put in a heap, candidate
  number \<open>a\<close> at address \<open>a\<close>, for the ranking service to mutate. The result
  is \<open>None\<close> when generation does not return, \<open>Inl\<close> when the scorer raises.
\<close>

definition generate_routes :: "env \<Rightarrow> scorer \<Rightarrow> criteria \<Rightarrow> (error + route_response) option" where
  "generate_routes e m crit =
     (case generate_candidate_routes e crit 20 of
        None \<Rightarrow> None
      | Some candidate_routes \<Rightarrow>
          if candidate_routes = [] then Some (Inr (build_response []))
          else
            (case rank_routes m [0 ..< length candidate_routes] ((\<lambda>a. candidate_routes ! a), []) of
               (Inl err, _, _) \<Rightarrow> Some (Inl err)
             | (Inr ranked_routes, h', _) \<Rightarrow>
                 Some (Inr ((build_response (map h' (take 5 ranked_routes)))\<lparr>criteria_rr := Some crit\<rparr>))))"

section \<open>Concrete requests, providers and scorers\<close>

definition crit0 :: criteria where
  "crit0 = \<lparr>center = (0, 0), radius_km = 5, duration_min = Some 30, distance_km_c = None,
     include_categories = [], avoid_categories = [], pet_friendly = False,
     elevation_gain_min_m = None, route_type = ''loop'', time_window = None\<rparr>"

definition rd0 :: route_data where
  "rd0 = \<lparr>rd_overview_polyline = Some ''xyz'', rd_duration = Some ''600s'',
     rd_distance = Some 800, rd_viewport = Some []\<rparr>"

text \<open>Three candidates at addresses 0, 1, 2, none of them scored yet.\<close>

definition heap0 :: heap where
  "heap0 a = route_candidate crit0 a [mk_place ''p'' 0 0, mk_place ''q'' 1 1] rd0"

text \<open>A scorer with \<open>predict_batch\<close> and fixed answers.\<close>

definition fixed_scorer :: "score list \<Rightarrow> scorer" where
  "fixed_scorer answer =
     \<lparr>has_predict_batch = True, predict_batch = (\<lambda>_. Some answer), predict = (\<lambda>_. None)\<rparr>"

definition scores0 :: "score list" where
  "scores0 = [Fin (9 / 10), Fin (4 / 10), Fin (7 / 10)]"

definition heap1 :: heap where
  "heap1 = write_scores heap0 (zip [0, 1, 2] scores0)"

text \<open>A scorer that answers with an infinite score for the second candidate.\<close>

definition scores_inf :: "score list" where
  "scores_inf = [Fin 1, PosInf]"

definition heap_inf :: heap where
  "heap_inf = write_scores heap0 (zip [0, 1] scores_inf)"

text \<open>Scorers that answer with NaN.\<close>

definition scores_nan :: "score list" where
  "scores_nan = [Fin 1, Fin 2, NaN, Fin 3]"

definition heap_nan :: heap where
  "heap_nan = write_scores heap0 (zip [0, 1, 2, 3] scores_nan)"

definition scores_nan_inf :: "score list" where
  "scores_nan_inf = [NaN, PosInf]"

definition heap_nan_inf :: heap where
  "heap_nan_inf = write_scores heap0 (zip [0, 1] scores_nan_inf)"

text \<open>
  Providers for the generation service. The random source always draws 2 and
  samples the first \<open>k\<close> places of the pool; the bearing is replaced by the
  latitude.
\<close>

definition env_of ::
  "(string list \<Rightarrow> place list option) \<Rightarrow> (nat \<Rightarrow> directions_result) \<Rightarrow> env" where
  "env_of search directions =
     \<lparr>find_nearby_places = (\<lambda>_ _ cats. search cats),
      get_directions = (\<lambda>idx _ _. directions idx),
      randint = (\<lambda>_. 2),
      sample = (\<lambda>_ pool k. take k pool),
      calculate_bearing = (\<lambda>_ _ la _. la)\<rparr>"

text \<open>One park and nothing else; directions succeed.\<close>

definition env_one :: env where
  "env_one = env_of (\<lambda>cats. if cats = [''park''] then Some [mk_place ''p'' 0 0] else Some [])
                    (\<lambda>_. DirReturn (Some rd0))"

definition pool_one :: "place list" where
  "pool_one = [mk_place ''p'' 0 0]"

text \<open>A park and a restaurant (the search for nature raises); directions succeed.\<close>

definition env_two :: env where
  "env_two = env_of (\<lambda>cats. if cats = [''park''] then Some [mk_place ''p'' 0 0]
                            else if cats = [''restaurant''] then Some [mk_place ''q'' 1 1]
                            else if cats = [''nature''] then None
                            else Some [])
                    (\<lambda>_. DirReturn (Some rd0))"

definition pool_two :: "place list" where
  "pool_two = [mk_place ''p'' 0 0, (mk_place ''q'' 1 1)\<lparr>search_category := ''restaurant''\<rparr>]"

text \<open>Every place search raises.\<close>

definition env_empty :: env where
  "env_empty = env_of (\<lambda>_. None) (\<lambda>_. DirReturn (Some rd0))"

text \<open>Places are found, and every directions call raises or returns nothing.\<close>

definition env_fail :: env where
  "env_fail = env_of (\<lambda>cats. if cats = [''park''] then Some [mk_place ''p'' 0 0] else Some [])
                     (\<lambda>idx. if even idx then DirRaise else DirReturn None)"

definition empty_response :: route_response where
  "empty_response = \<lparr>success = True, message = ''Successfully generated 0 routes'',
     routes = [], total_count = 0, criteria_rr = None\<rparr>"

section \<open>Verified properties: crossing optimizer\<close>

lemma edge_pairs_iff: "(i, j) \<in> set (edge_pairs n) \<longleftrightarrow> i + 2 \<le> j \<and> j + 1 < n"
proof
  assume "(i, j) \<in> set (edge_pairs n)"
  then show "i + 2 \<le> j \<and> j + 1 < n" by (auto simp: edge_pairs_def)
next
  assume a: "i + 2 \<le> j \<and> j + 1 < n"
  then have i: "i \<in> set [0 ..< n - 3]" and j: "(i, j) \<in> set (map (\<lambda>j. (i, j)) [i + 2 ..< n - 1])"
    by auto
  have "(i, j) \<in> (\<Union>x \<in> set [0 ..< n - 3]. set (map (\<lambda>j. (x, j)) [x + 2 ..< n - 1]))"
    using i j by (rule UN_I)
  then show "(i, j) \<in> set (edge_pairs n)"
    by (simp add: edge_pairs_def)
qed

lemma find_crossing_Some:
  assumes a: "find_crossing ws = Some (i, j)"
  shows "i + 2 \<le> j \<and> j + 1 < length ws \<and> crossing_at ws (i, j)"
proof -
  from a obtain k where k: "k < length (edge_pairs (length ws))"
    "crossing_at ws (edge_pairs (length ws) ! k)"
    "(i, j) = edge_pairs (length ws) ! k"
    unfolding find_crossing_def find_Some_iff by blast
  from k(1) have "edge_pairs (length ws) ! k \<in> set (edge_pairs (length ws))" by (rule nth_mem)
  with k(3) have "(i, j) \<in> set (edge_pairs (length ws))" by simp
  then have "i + 2 \<le> j \<and> j + 1 < length ws" by (simp only: edge_pairs_iff)
  moreover from k(2,3) have "crossing_at ws (i, j)" by simp
  ultimately show ?thesis by simp
qed

lemma find_crossing_None:
  "find_crossing ws = None \<longleftrightarrow>
     (\<forall>i j. i + 2 \<le> j \<and> j + 1 < length ws \<longrightarrow> \<not> crossing_at ws (i, j))"
proof -
  have "find_crossing ws = None \<longleftrightarrow> (\<forall>p \<in> set (edge_pairs (length ws)). \<not> crossing_at ws p)"
    unfolding find_crossing_def find_None_iff by blast
  also have "\<dots> \<longleftrightarrow> (\<forall>i j. (i, j) \<in> set (edge_pairs (length ws)) \<longrightarrow> \<not> crossing_at ws (i, j))"
    by auto
  finally show ?thesis by (simp only: edge_pairs_iff)
qed

lemma mset_reverse_segment:
  assumes "i \<le> j"
  shows "mset (reverse_segment ws i j) = mset ws"
proof -
  have d: "drop (j + 1) ws = drop (j - i) (drop (i + 1) ws)"
    using assms by simp
  have "mset (reverse_segment ws i j)
        = mset (take (i + 1) ws) + (mset (take (j - i) (drop (i + 1) ws)) + mset (drop (j - i) (drop (i + 1) ws)))"
    unfolding reverse_segment_def d by simp
  also have "\<dots> = mset (take (i + 1) ws) + mset (drop (i + 1) ws)"
    by (simp only: mset_append[symmetric] append_take_drop_id)
  also have "\<dots> = mset ws"
    by (simp only: mset_append[symmetric] append_take_drop_id)
  finally show ?thesis .
qed

lemma two_opt_loop_post:
  assumes "two_opt_loop ws = Some out"
  shows "find_crossing out = None \<and> mset out = mset ws"
proof (rule two_opt_loop.raw_induct[where P = "\<lambda>ws out. find_crossing out = None \<and> mset out = mset ws", OF _ assms])
  fix loop :: "place list \<Rightarrow> place list option" and ws out
  assume IH: "\<And>ws out. loop ws = Some out \<Longrightarrow> find_crossing out = None \<and> mset out = mset ws"
  assume step: "(case find_crossing ws of None \<Rightarrow> Some ws | Some (i, j) \<Rightarrow> loop (reverse_segment ws i j)) = Some out"
  show "find_crossing out = None \<and> mset out = mset ws"
  proof (cases "find_crossing ws")
    case None
    with step show ?thesis by simp
  next
    case (Some p)
    obtain i j where p: "p = (i, j)" by (cases p)
    from Some p step have r: "loop (reverse_segment ws i j) = Some out" by simp
    from Some p have "find_crossing ws = Some (i, j)" by simp
    then have "i \<le> j" by (drule_tac find_crossing_Some) simp
    then have "mset (reverse_segment ws i j) = mset ws" by (rule mset_reverse_segment)
    with IH[OF r] show ?thesis by simp
  qed
qed

lemma edge_pairs_4: "edge_pairs 4 = [(0, 2)]"
  by code_simp

lemma si1: "segments_intersect (0,0) (1,1) (1,0) (0,1)"
  by (simp add: segments_intersect_def)

lemma si2: "\<not> segments_intersect (0,0) (1,0) (1,1) (0,1)"
  by (simp add: segments_intersect_def)

lemma find_crossing_bowtie: "find_crossing bowtie = Some (0, 2)"
proof -
  have len: "length bowtie = 4" by (simp add: bowtie_def)
  have c: "crossing_at bowtie (0, 2)"
    by (simp add: crossing_at_def bowtie_def extract_point_def mk_place_def si1)
  show ?thesis by (simp add: find_crossing_def len edge_pairs_4 c)
qed

lemma find_crossing_untangled: "find_crossing untangled = None"
proof -
  have len: "length untangled = 4" by (simp add: untangled_def)
  have c: "\<not> crossing_at untangled (0, 2)"
    by (simp add: crossing_at_def untangled_def extract_point_def mk_place_def si2)
  show ?thesis by (simp add: find_crossing_def len edge_pairs_4 c)
qed

lemma reverse_bowtie: "reverse_segment bowtie 0 2 = untangled"
  by (simp add: reverse_segment_def bowtie_def untangled_def)

lemma si3: "segments_intersect (0,0) (1,0) (0,1) (0,0)"
  by (simp add: segments_intersect_def)

lemma si4: "segments_intersect (0,0) (0,1) (1,0) (0,0)"
  by (simp add: segments_intersect_def)

lemma two_opt_bowtie: "optimize_waypoint_order_by_two_opt bowtie = Some untangled"
proof -
  have "two_opt_loop untangled = Some untangled"
    by (subst two_opt_loop.simps) (simp add: find_crossing_untangled)
  then have "two_opt_loop bowtie = Some untangled"
    by (subst two_opt_loop.simps) (simp add: find_crossing_bowtie reverse_bowtie)
  moreover have "length bowtie = 4" by (simp add: bowtie_def)
  ultimately show ?thesis by (simp add: optimize_waypoint_order_by_two_opt_def)
qed

lemma find_crossing_closed_tour: "find_crossing closed_tour = Some (0, 2)"
proof -
  have len: "length closed_tour = 4" by (simp add: closed_tour_def)
  have c: "crossing_at closed_tour (0, 2)"
    by (simp add: crossing_at_def closed_tour_def extract_point_def mk_place_def si3)
  show ?thesis by (simp add: find_crossing_def len edge_pairs_4 c)
qed

lemma find_crossing_closed_tour_rev: "find_crossing closed_tour_rev = Some (0, 2)"
proof -
  have len: "length closed_tour_rev = 4" by (simp add: closed_tour_rev_def)
  have c: "crossing_at closed_tour_rev (0, 2)"
    by (simp add: crossing_at_def closed_tour_rev_def extract_point_def mk_place_def si4)
  show ?thesis by (simp add: find_crossing_def len edge_pairs_4 c)
qed

lemma reverse_closed_tour: "reverse_segment closed_tour 0 2 = closed_tour_rev"
  "reverse_segment closed_tour_rev 0 2 = closed_tour"
  by (simp_all add: reverse_segment_def closed_tour_def closed_tour_rev_def)

lemma two_opt_loop_avoids:
  assumes "two_opt_loop ws = Some out"
  shows "ws \<noteq> closed_tour \<and> ws \<noteq> closed_tour_rev"
proof (rule two_opt_loop.raw_induct[where P = "\<lambda>ws out. ws \<noteq> closed_tour \<and> ws \<noteq> closed_tour_rev", OF _ assms])
  fix loop :: "place list \<Rightarrow> place list option" and ws out
  assume IH: "\<And>ws out. loop ws = Some out \<Longrightarrow> ws \<noteq> closed_tour \<and> ws \<noteq> closed_tour_rev"
  assume step: "(case find_crossing ws of None \<Rightarrow> Some ws | Some (i, j) \<Rightarrow> loop (reverse_segment ws i j)) = Some out"
  show "ws \<noteq> closed_tour \<and> ws \<noteq> closed_tour_rev"
  proof (intro conjI notI)
    assume "ws = closed_tour"
    with step have "loop closed_tour_rev = Some out"
      by (simp add: find_crossing_closed_tour reverse_closed_tour)
    with IH show False by blast
  next
    assume "ws = closed_tour_rev"
    with step have "loop closed_tour = Some out"
      by (simp add: find_crossing_closed_tour_rev reverse_closed_tour)
    with IH show False by blast
  qed
qed

text \<open>
  Claim C2 (termination of the crossing optimizer on every input). On the closed
  tour a, b, c, a the edges (a, b) and (c, a) share the endpoint a, and
  \<open>segments_intersect\<close> reports an intersection (the orientations are 2, 0,
  0, 2, so its first test succeeds); the reversal gives a, c, b, a, where the
  same holds, and the next reversal gives the first sequence back. No scan is ever free of an intersecting pair: the
  loop does not return.
\<close>

theorem two_opt_closed_tour_diverges:
  "optimize_waypoint_order_by_two_opt closed_tour = None"
proof -
  have "two_opt_loop closed_tour = None"
  proof (cases "two_opt_loop closed_tour")
    case (Some out)
    then show ?thesis using two_opt_loop_avoids by blast
  qed simp
  moreover have "length closed_tour = 4" by (simp add: closed_tour_def)
  ultimately show ?thesis by (simp add: optimize_waypoint_order_by_two_opt_def)
qed

lemma optimize_fixed:
  assumes "optimize_waypoint_order_by_two_opt w = Some out"
  shows "optimize_waypoint_order_by_two_opt out = Some out"
proof (cases "length w < 4")
  case True
  with assms show ?thesis by (simp add: optimize_waypoint_order_by_two_opt_def)
next
  case False
  with assms have "two_opt_loop w = Some out" by (simp add: optimize_waypoint_order_by_two_opt_def)
  then have "find_crossing out = None" using two_opt_loop_post by blast
  then have "two_opt_loop out = Some out" by (subst two_opt_loop.simps) simp
  then show ?thesis by (simp add: optimize_waypoint_order_by_two_opt_def)
qed

text \<open>
  Claim C9 (idempotence): running the optimizer on its own result gives that
  result again. The equation is between computations: where the first run
  returns \<open>out\<close>, the second run on \<open>out\<close> returns \<open>out\<close>; where the
  first run does not return, neither side does.
\<close>

theorem optimize_idempotent:
  "Option.bind (optimize_waypoint_order_by_two_opt w) optimize_waypoint_order_by_two_opt
     = optimize_waypoint_order_by_two_opt w"
proof (cases "optimize_waypoint_order_by_two_opt w")
  case None
  then show ?thesis by simp
next
  case (Some out)
  then show ?thesis by (simp add: optimize_fixed)
qed

text \<open>
  What the optimizer guarantees when it returns: the returned sequence is a
  reordering of the input (same multiset of waypoints) and no two non-adjacent
  edges \<open>(i, i+1)\<close>, \<open>(j, j+1)\<close> with \<open>j \<ge> i + 2\<close> of it satisfy
  \<open>segments_intersect\<close>.
\<close>

lemma optimize_returned_sequence:
  assumes "optimize_waypoint_order_by_two_opt wps = Some out"
  shows "mset out = mset wps \<and>
    (\<forall>i j. i + 2 \<le> j \<and> j + 1 < length out \<longrightarrow>
       \<not> segments_intersect (extract_point (out ! i)) (extract_point (out ! (i + 1)))
                              (extract_point (out ! j)) (extract_point (out ! (j + 1))))"
proof (cases "length wps < 4")
  case True
  with assms have "out = wps" by (simp add: optimize_waypoint_order_by_two_opt_def)
  with True show ?thesis by auto
next
  case False
  with assms have "two_opt_loop wps = Some out"
    by (simp add: optimize_waypoint_order_by_two_opt_def)
  then have "find_crossing out = None" and m: "mset out = mset wps"
    using two_opt_loop_post by blast+
  then have "\<forall>i j. i + 2 \<le> j \<and> j + 1 < length out \<longrightarrow> \<not> crossing_at out (i, j)"
    by (simp only: find_crossing_None)
  with m show ?thesis by (simp add: crossing_at_def)
qed

text \<open>
  Claim C1 (for every input the optimizer returns a reordering of the input
  without intersecting non-adjacent edges): on the closed tour a, b, c, a the
  optimizer returns no sequence at all, whatever \<open>out\<close> is. This is the loop
  of claim C2 that never ends.
\<close>

theorem optimize_closed_tour_returns_nothing:
  "optimize_waypoint_order_by_two_opt closed_tour \<noteq> Some out"
proof
  assume r: "optimize_waypoint_order_by_two_opt closed_tour = Some out"
  have "length closed_tour = 4" by (simp add: closed_tour_def)
  with r have "two_opt_loop closed_tour = Some out"
    by (simp add: optimize_waypoint_order_by_two_opt_def)
  then show False using two_opt_loop_avoids by blast
qed

section \<open>Verified properties: Python's sort on keys without NaN\<close>

lemma bisect_spec:
  fixes f :: "'a \<Rightarrow> 'b::linorder"
  assumes srt: "sorted (map f xs)"
    and agree: "\<forall>y \<in> set xs. lt x y \<longleftrightarrow> f x < f y"
  shows "l \<le> r \<Longrightarrow> r \<le> length xs \<Longrightarrow>
         (\<forall>i<l. f (xs ! i) \<le> f x) \<Longrightarrow>
         (\<forall>i. r \<le> i \<and> i < length xs \<longrightarrow> f x < f (xs ! i)) \<Longrightarrow>
         bisect lt x xs l r \<le> length xs \<and>
         (\<forall>i<bisect lt x xs l r. f (xs ! i) \<le> f x) \<and>
         (\<forall>i. bisect lt x xs l r \<le> i \<and> i < length xs \<longrightarrow> f x < f (xs ! i))"
proof (induction "r - l" arbitrary: l r rule: less_induct)
  case less
  show ?case
  proof (cases "l < r")
    case False
    with less.prems have "bisect lt x xs l r = l" "l \<le> length xs"
      by (simp_all add: bisect.simps)
    with less.prems False show ?thesis by simp
  next
    case True
    define p where "p = l + (r - l) div 2"
    from True have pl: "l \<le> p" and pr: "p < r" unfolding p_def by auto
    from pr less.prems(2) have plen: "p < length xs" by simp
    then have pmem: "xs ! p \<in> set xs" by simp
    have unfold: "bisect lt x xs l r =
        (if lt x (xs ! p) then bisect lt x xs l p else bisect lt x xs (p + 1) r)"
      using True by (subst bisect.simps) (simp add: p_def Let_def)
    show ?thesis
    proof (cases "lt x (xs ! p)")
      case lt: True
      with agree pmem have fp: "f x < f (xs ! p)" by blast
      have up: "\<forall>i. p \<le> i \<and> i < length xs \<longrightarrow> f x < f (xs ! i)"
      proof (intro allI impI)
        fix i assume i: "p \<le> i \<and> i < length xs"
        with srt have "f (xs ! p) \<le> f (xs ! i)"
          by (simp add: sorted_iff_nth_mono)
        with fp show "f x < f (xs ! i)" by simp
      qed
      have m: "p - l < r - l" using pl pr by simp
      have pl2: "p \<le> length xs" using plen by simp
      from less.hyps[OF m pl pl2 less.prems(3) up] lt unfold show ?thesis by simp
    next
      case nlt: False
      with agree pmem have fp: "f (xs ! p) \<le> f x" by auto
      have lo: "\<forall>i<p + 1. f (xs ! i) \<le> f x"
      proof (intro allI impI)
        fix i assume i: "i < p + 1"
        with srt plen have "f (xs ! i) \<le> f (xs ! p)"
          by (simp add: sorted_iff_nth_mono)
        with fp show "f (xs ! i) \<le> f x" by simp
      qed
      have m: "r - (p + 1) < r - l" using pl pr by simp
      have pr2: "p + 1 \<le> r" using pr by simp
      from less.hyps[OF m pr2 less.prems(2) lo less.prems(4)] nlt unfold show ?thesis by simp
    qed
  qed
qed

lemma bisect_full:
  fixes f :: "'a \<Rightarrow> 'b::linorder"
  assumes srt: "sorted (map f xs)"
    and agree: "\<forall>y \<in> set xs. lt x y \<longleftrightarrow> f x < f y"
  shows "(\<forall>y \<in> set (take (bisect lt x xs 0 (length xs)) xs). f y \<le> f x) \<and>
         (\<forall>y \<in> set (drop (bisect lt x xs 0 (length xs)) xs). f x < f y)"
proof -
  let ?p = "bisect lt x xs 0 (length xs)"
  have s: "?p \<le> length xs \<and> (\<forall>i<?p. f (xs ! i) \<le> f x) \<and>
         (\<forall>i. ?p \<le> i \<and> i < length xs \<longrightarrow> f x < f (xs ! i))"
  proof -
    have v: "\<forall>i. length xs \<le> i \<and> i < length xs \<longrightarrow> f x < f (xs ! i)" by auto
    have w: "\<forall>i<(0::nat). f (xs ! i) \<le> f x" by simp
    show ?thesis
      using bisect_spec[of f xs lt x 0 "length xs", OF srt agree _ _ w v] by simp
  qed
  have a: "\<forall>y \<in> set (take ?p xs). f y \<le> f x"
  proof
    fix y assume "y \<in> set (take ?p xs)"
    then obtain i where "i < length (take ?p xs)" "y = take ?p xs ! i"
      by (metis in_set_conv_nth)
    with s show "f y \<le> f x" by simp
  qed
  have b: "\<forall>y \<in> set (drop ?p xs). f x < f y"
  proof
    fix y assume "y \<in> set (drop ?p xs)"
    then obtain i where i: "i < length (drop ?p xs)" "y = drop ?p xs ! i"
      by (metis in_set_conv_nth)
    then have "y = xs ! (?p + i)" "?p + i < length xs" using s by simp_all
    with s show "f x < f y" by simp
  qed
  from a b show ?thesis by blast
qed

lemma insert_sorted:
  fixes f :: "'a \<Rightarrow> 'b::linorder"
  assumes "sorted (map f xs)"
    and "\<forall>y \<in> set (take p xs). f y \<le> f x"
    and "\<forall>y \<in> set (drop p xs). f x < f y"
  shows "sorted (map f (take p xs @ x # drop p xs))"
proof -
  from assms(1) have "sorted (map f (take p xs @ drop p xs))" by simp
  then have "sorted (map f (take p xs))" "sorted (map f (drop p xs))"
    "\<forall>a \<in> set (take p xs). \<forall>b \<in> set (drop p xs). f a \<le> f b"
    unfolding map_append sorted_append by auto
  with assms(2,3) show ?thesis
    unfolding map_append sorted_append by (auto simp: less_imp_le intro: order_trans)
qed

lemma insert_filter:
  fixes f :: "'a \<Rightarrow> 'b::linorder"
  assumes "\<forall>y \<in> set (drop p xs). f x < f y"
  shows "filter (\<lambda>y. f y = v) (take p xs @ x # drop p xs) = filter (\<lambda>y. f y = v) (xs @ [x])"
proof (cases "f x = v")
  case True
  with assms have "filter (\<lambda>y. f y = v) (drop p xs) = []"
    by (auto simp: filter_empty_conv)
  moreover have "filter (\<lambda>y. f y = v) xs
      = filter (\<lambda>y. f y = v) (take p xs) @ filter (\<lambda>y. f y = v) (drop p xs)"
    by (metis append_take_drop_id filter_append)
  ultimately show ?thesis using True by simp
next
  case False
  have "filter (\<lambda>y. f y = v) xs
      = filter (\<lambda>y. f y = v) (take p xs) @ filter (\<lambda>y. f y = v) (drop p xs)"
    by (metis append_take_drop_id filter_append)
  with False show ?thesis by simp
qed

lemma mset_binarysort: "mset (binarysort lt front rest) = mset front + mset rest"
proof (induction rest arbitrary: front)
  case Nil
  show ?case by simp
next
  case (Cons x rest)
  let ?l = "bisect lt x front 0 (length front)"
  have "mset (take ?l front @ x # drop ?l front) = mset front + {#x#}"
    by (metis add_mset_add_single append_take_drop_id mset.simps(2) mset_append union_mset_add_mset_right)
  with Cons.IH[of "take ?l front @ x # drop ?l front"] show ?case
    by (simp add: Let_def)
qed

lemma binarysort_spec:
  fixes f :: "'a \<Rightarrow> 'b::linorder"
  assumes "sorted (map f front)"
    and "\<forall>a \<in> set front \<union> set rest. \<forall>b \<in> set front \<union> set rest. lt a b \<longleftrightarrow> f a < f b"
  shows "sorted (map f (binarysort lt front rest)) \<and>
         (\<forall>v. filter (\<lambda>y. f y = v) (binarysort lt front rest) = filter (\<lambda>y. f y = v) (front @ rest))"
  using assms
proof (induction rest arbitrary: front)
  case Nil
  then show ?case by simp
next
  case (Cons x rest)
  let ?l = "bisect lt x front 0 (length front)"
  let ?front = "take ?l front @ x # drop ?l front"
  from Cons.prems(2) have ag: "\<forall>y \<in> set front. lt x y \<longleftrightarrow> f x < f y" by simp
  note b = bisect_full[of f front lt x, OF Cons.prems(1) ag]
  from b have s: "sorted (map f ?front)"
    using insert_sorted[of f front ?l x, OF Cons.prems(1)] by blast
  from b have fl: "\<And>v. filter (\<lambda>y. f y = v) ?front = filter (\<lambda>y. f y = v) (front @ [x])"
    using insert_filter[of ?l front f x] by blast
  have "set ?front = set front \<union> {x}"
  proof -
    have "set ?front = set (take ?l front) \<union> set (drop ?l front) \<union> {x}" by auto
    also have "set (take ?l front) \<union> set (drop ?l front) = set front"
      by (metis append_take_drop_id set_append)
    finally show ?thesis .
  qed
  with Cons.prems(2) have ag2:
    "\<forall>a \<in> set ?front \<union> set rest. \<forall>b \<in> set ?front \<union> set rest. lt a b \<longleftrightarrow> f a < f b"
    by simp
  have unfold: "binarysort lt front (x # rest) = binarysort lt ?front rest"
    by (simp add: Let_def)
  from Cons.IH[OF s ag2] have A: "sorted (map f (binarysort lt ?front rest))"
    and B: "\<And>v. filter (\<lambda>y. f y = v) (binarysort lt ?front rest) = filter (\<lambda>y. f y = v) (?front @ rest)"
    by blast+
  have C: "\<And>v. filter (\<lambda>y. f y = v) (?front @ rest) = filter (\<lambda>y. f y = v) (front @ x # rest)"
  proof -
    fix v
    have "filter (\<lambda>y. f y = v) (?front @ rest)
          = filter (\<lambda>y. f y = v) ?front @ filter (\<lambda>y. f y = v) rest"
      by (rule filter_append)
    also have "\<dots> = filter (\<lambda>y. f y = v) (front @ [x]) @ filter (\<lambda>y. f y = v) rest"
      by (simp only: fl)
    also have "\<dots> = filter (\<lambda>y. f y = v) (front @ x # rest)" by simp
    finally show "filter (\<lambda>y. f y = v) (?front @ rest) = filter (\<lambda>y. f y = v) (front @ x # rest)" .
  qed
  show ?case unfolding unfold using A B C by simp
qed

lemma run_asc_le: "run_asc lt prev xs \<le> length xs"
  by (induction xs arbitrary: prev) simp_all

lemma run_desc_le: "run_desc lt prev xs \<le> length xs"
  by (induction xs arbitrary: prev) simp_all

lemma run_asc_sorted:
  fixes f :: "'a \<Rightarrow> 'b::linorder"
  assumes "\<forall>a \<in> set (prev # xs). \<forall>b \<in> set (prev # xs). lt a b \<longleftrightarrow> f a < f b"
  shows "sorted (map f (prev # take (run_asc lt prev xs) xs))"
  using assms
proof (induction xs arbitrary: prev)
  case Nil
  show ?case by simp
next
  case (Cons x xs)
  show ?case
  proof (cases "lt x prev")
    case True
    then show ?thesis by simp
  next
    case False
    with Cons.prems have le: "f prev \<le> f x" by auto
    from Cons.prems have "\<forall>a \<in> set (x # xs). \<forall>b \<in> set (x # xs). lt a b \<longleftrightarrow> f a < f b" by simp
    from Cons.IH[OF this] have s: "sorted (map f (x # take (run_asc lt x xs) xs))" .
    then have "\<forall>y \<in> set (take (run_asc lt x xs) xs). f x \<le> f y" by simp
    with le have "\<forall>y \<in> set (take (run_asc lt x xs) xs). f prev \<le> f y" by auto
    with s le False show ?thesis by simp
  qed
qed

lemma run_desc_sorted:
  fixes f :: "'a \<Rightarrow> 'b::linorder"
  assumes "\<forall>a \<in> set (prev # xs). \<forall>b \<in> set (prev # xs). lt a b \<longleftrightarrow> f a < f b"
  shows "sorted_wrt (\<lambda>a b. f b < f a) (prev # take (run_desc lt prev xs) xs)"
  using assms
proof (induction xs arbitrary: prev)
  case Nil
  show ?case by simp
next
  case (Cons x xs)
  show ?case
  proof (cases "lt x prev")
    case False
    then show ?thesis by simp
  next
    case True
    with Cons.prems have le: "f x < f prev" by auto
    from Cons.prems have "\<forall>a \<in> set (x # xs). \<forall>b \<in> set (x # xs). lt a b \<longleftrightarrow> f a < f b" by simp
    from Cons.IH[OF this] have s: "sorted_wrt (\<lambda>a b. f b < f a) (x # take (run_desc lt x xs) xs)" .
    then have "\<forall>y \<in> set (take (run_desc lt x xs) xs). f y < f x" by simp
    with le have "\<forall>y \<in> set (take (run_desc lt x xs) xs). f y < f prev" by auto
    with s le True show ?thesis by simp
  qed
qed

lemma desc_rev_sorted:
  fixes f :: "'a \<Rightarrow> 'b::linorder"
  assumes "sorted_wrt (\<lambda>a b. f b < f a) xs"
  shows "sorted (map f (rev xs))"
proof -
  from assms have "sorted_wrt (\<lambda>a b. f a < f b) (rev xs)" by (simp add: sorted_wrt_rev)
  then have "sorted_wrt (\<lambda>a b. f a \<le> f b) (rev xs)"
    by (rule sorted_wrt_mono_rel[rotated]) simp
  then show ?thesis by (simp add: sorted_map)
qed

lemma desc_rev_filter:
  fixes f :: "'a \<Rightarrow> 'b::linorder"
  assumes "sorted_wrt (\<lambda>a b. f b < f a) xs"
  shows "filter (\<lambda>y. f y = v) (rev xs) = filter (\<lambda>y. f y = v) xs"
  using assms
proof (induction xs)
  case Nil
  show ?case by simp
next
  case (Cons x xs)
  then have IH: "filter (\<lambda>y. f y = v) (rev xs) = filter (\<lambda>y. f y = v) xs"
    and lt: "\<forall>y \<in> set xs. f y < f x" by simp_all
  show ?case
  proof (cases "f x = v")
    case True
    with lt have "filter (\<lambda>y. f y = v) xs = []" by (auto simp: filter_empty_conv)
    with IH True show ?thesis by simp
  next
    case False
    with IH show ?thesis by simp
  qed
qed

lemma mset_list_sort: "mset (list_sort lt xs) = mset xs"
proof (cases "length xs < 2")
  case True
  then show ?thesis by (simp add: list_sort_def)
next
  case False
  obtain n d where c: "count_run lt xs = (n, d)" by (cases "count_run lt xs")
  have "mset (take n xs) + mset (drop n xs) = mset xs"
    by (simp only: mset_append[symmetric] append_take_drop_id)
  then have "mset (if d then rev (take n xs) else take n xs) + mset (drop n xs) = mset xs"
    by simp
  moreover have "list_sort lt xs = binarysort lt (if d then rev (take n xs) else take n xs) (drop n xs)"
    using False c by (simp add: list_sort_def Let_def)
  ultimately show ?thesis by (simp only: mset_binarysort)
qed

lemma list_sort_spec:
  fixes f :: "'a \<Rightarrow> 'b::linorder"
  assumes agree: "\<forall>a \<in> set xs. \<forall>b \<in> set xs. lt a b \<longleftrightarrow> f a < f b"
  shows "sorted (map f (list_sort lt xs)) \<and>
         (\<forall>v. filter (\<lambda>y. f y = v) (list_sort lt xs) = filter (\<lambda>y. f y = v) xs)"
proof (cases xs)
  case Nil
  then show ?thesis by (simp add: list_sort_def)
next
  case (Cons x ys)
  show ?thesis
  proof (cases ys)
    case Nil
    with Cons show ?thesis by (simp add: list_sort_def)
  next
    case (Cons y zs)
    with \<open>xs = x # ys\<close> have xs: "xs = x # y # zs" by simp
    from agree xs have agy: "\<forall>a \<in> set (y # zs). \<forall>b \<in> set (y # zs). lt a b \<longleftrightarrow> f a < f b"
      by simp
    from agree xs have axy: "lt y x \<longleftrightarrow> f y < f x" by simp
    have len: "\<not> length xs < 2" using xs by simp
    show ?thesis
    proof (cases "lt y x")
      case False
      let ?m = "run_asc lt y zs"
      let ?run = "x # y # take ?m zs"
      let ?rest = "drop ?m zs"
      have ls: "list_sort lt xs = binarysort lt ?run ?rest"
        using False xs by (simp add: list_sort_def)
      have app: "?run @ ?rest = xs" using xs by simp
      from False axy have "f x \<le> f y" by simp
      moreover from run_asc_sorted[OF agy] have s: "sorted (map f (y # take ?m zs))" .
      ultimately have srt: "sorted (map f ?run)" by auto
      have "set ?run \<union> set ?rest = set (?run @ ?rest)" by (simp only: set_append)
      then have "set ?run \<union> set ?rest = set xs" by (simp only: app)
      with agree have ag: "\<forall>a \<in> set ?run \<union> set ?rest. \<forall>b \<in> set ?run \<union> set ?rest. lt a b \<longleftrightarrow> f a < f b"
        by simp
      from binarysort_spec[of f ?run ?rest lt, OF srt ag] show ?thesis
        unfolding ls app .
    next
      case True
      let ?m = "run_desc lt y zs"
      let ?run = "x # y # take ?m zs"
      let ?rest = "drop ?m zs"
      have ls: "list_sort lt xs = binarysort lt (rev ?run) ?rest"
        using True xs by (simp add: list_sort_def)
      have app: "?run @ ?rest = xs" using xs by simp
      from True axy have "f y < f x" by simp
      moreover from run_desc_sorted[OF agy]
      have s: "sorted_wrt (\<lambda>a b. f b < f a) (y # take ?m zs)" .
      ultimately have desc: "sorted_wrt (\<lambda>a b. f b < f a) ?run" by auto
      then have srt: "sorted (map f (rev ?run))" by (rule desc_rev_sorted)
      have "set (rev ?run) \<union> set ?rest = set (?run @ ?rest)" by (simp only: set_append set_rev)
      then have "set (rev ?run) \<union> set ?rest = set xs" by (simp only: app)
      with agree have ag: "\<forall>a \<in> set (rev ?run) \<union> set ?rest. \<forall>b \<in> set (rev ?run) \<union> set ?rest. lt a b \<longleftrightarrow> f a < f b"
        by simp
      note b = binarysort_spec[of f "rev ?run" ?rest lt, OF srt ag]
      have "\<And>v. filter (\<lambda>y. f y = v) (rev ?run @ ?rest) = filter (\<lambda>y. f y = v) xs"
      proof -
        fix v
        have "filter (\<lambda>y. f y = v) (rev ?run @ ?rest)
              = filter (\<lambda>y. f y = v) (rev ?run) @ filter (\<lambda>y. f y = v) ?rest"
          by (rule filter_append)
        also have "\<dots> = filter (\<lambda>y. f y = v) ?run @ filter (\<lambda>y. f y = v) ?rest"
          by (simp only: desc_rev_filter[OF desc])
        also have "\<dots> = filter (\<lambda>y. f y = v) (?run @ ?rest)" by (rule filter_append[symmetric])
        finally show "filter (\<lambda>y. f y = v) (rev ?run @ ?rest) = filter (\<lambda>y. f y = v) xs"
          unfolding app .
      qed
      with b show ?thesis unfolding ls by simp
    qed
  qed
qed

lemma float_lt_rank:
  "a \<noteq> NaN \<Longrightarrow> b \<noteq> NaN \<Longrightarrow> float_lt a b \<longleftrightarrow> score_rank a < score_rank b"
  by (cases a; cases b) simp_all

lemma float_ge_rank:
  "a \<noteq> NaN \<Longrightarrow> b \<noteq> NaN \<Longrightarrow> float_ge a b \<longleftrightarrow> score_rank b \<le> score_rank a"
  by (cases a; cases b) (auto simp: float_ge_def)

lemma score_rank_inj: "score_rank a = score_rank b \<longleftrightarrow> a = b"
  by (cases a; cases b) simp_all

lemma mset_sorted_reverse: "mset (sorted_reverse k xs) = mset xs"
  by (simp add: sorted_reverse_def mset_list_sort)

lemma sorted_reverse_spec:
  assumes nn: "\<forall>a \<in> set xs. k a \<noteq> NaN"
  shows "sorted_wrt (\<lambda>a b. float_ge (k a) (k b)) (sorted_reverse k xs) \<and>
         (\<forall>v. filter (\<lambda>a. k a = v) (sorted_reverse k xs) = filter (\<lambda>a. k a = v) xs)"
proof -
  let ?lt = "\<lambda>a b. float_lt (k a) (k b)"
  let ?f = "\<lambda>a. score_rank (k a)"
  let ?ys = "list_sort ?lt (rev xs)"
  from nn have agree: "\<forall>a \<in> set (rev xs). \<forall>b \<in> set (rev xs). ?lt a b \<longleftrightarrow> ?f a < ?f b"
    by (simp add: float_lt_rank)
  from list_sort_spec[of "rev xs" ?lt ?f, OF agree]
  have s: "sorted (map ?f ?ys)"
    and st: "\<And>v. filter (\<lambda>y. ?f y = v) ?ys = filter (\<lambda>y. ?f y = v) (rev xs)" by blast+
  have "mset ?ys = mset (rev xs)" by (rule mset_list_sort)
  then have "set ?ys = set (rev xs)" by (rule mset_eq_setD)
  then have set_ys: "set ?ys = set xs" by simp
  from s have "sorted_wrt (\<lambda>a b. ?f a \<le> ?f b) ?ys" by (simp only: sorted_map)
  then have "sorted_wrt (\<lambda>a b. ?f b \<le> ?f a) (rev ?ys)" by (simp add: sorted_wrt_rev)
  then have d: "sorted_wrt (\<lambda>a b. float_ge (k a) (k b)) (rev ?ys)"
  proof (rule sorted_wrt_mono_rel[rotated])
    fix a b assume "a \<in> set (rev ?ys)" "b \<in> set (rev ?ys)" "?f b \<le> ?f a"
    with nn set_ys show "float_ge (k a) (k b)" by (simp add: float_ge_rank)
  qed
  have e: "\<And>v. filter (\<lambda>a. k a = v) (rev ?ys) = filter (\<lambda>a. k a = v) xs"
  proof -
    fix v
    have "filter (\<lambda>a. k a = v) ?ys = filter (\<lambda>a. k a = v) (rev xs)"
      using st[of "score_rank v"] by (simp only: score_rank_inj)
    then have "rev (filter (\<lambda>a. k a = v) ?ys) = rev (filter (\<lambda>a. k a = v) (rev xs))" by simp
    then show "filter (\<lambda>a. k a = v) (rev ?ys) = filter (\<lambda>a. k a = v) xs"
      by (simp only: rev_filter rev_rev_ident)
  qed
  from d e show ?thesis unfolding sorted_reverse_def by blast
qed

section \<open>Verified properties: ranking\<close>

lemma write_scores_frame:
  "(write_scores h zs a)\<lparr>score := x\<rparr> = (h a)\<lparr>score := x\<rparr>"
proof (induction zs arbitrary: h)
  case Nil
  show ?case by simp
next
  case (Cons z zs)
  obtain b s where z: "z = (b, s)" by (cases z)
  have "(write_scores h (z # zs) a)\<lparr>score := x\<rparr>
        = ((h(b := (h b)\<lparr>score := Some s\<rparr>)) a)\<lparr>score := x\<rparr>"
    unfolding z write_scores.simps by (rule Cons.IH)
  also have "\<dots> = (h a)\<lparr>score := x\<rparr>" by simp
  finally show ?case .
qed

lemma sorted_reverse_Nil: "sorted_reverse k [] = []"
  by (simp add: sorted_reverse_def list_sort_def)

lemma rank_routes_Inr:
  assumes "rank_routes m cands (h, lg) = (Inr ranked, h', lg')"
  shows "ranked = sorted_reverse (score_key h') cands"
  using assms
  by (auto simp: rank_routes_def Let_def sorted_reverse_Nil split: if_splits option.splits)

lemma rank_routes_sorted_perm:
  assumes "rank_routes m cands (h, lg) = (Inr ranked, h', lg')"
  shows "mset ranked = mset cands"
    and "\<forall>a \<in> set cands. score_key h' a \<noteq> NaN \<Longrightarrow>
         sorted_wrt (\<lambda>a b. float_ge (score_key h' a) (score_key h' b)) ranked"
    and "\<forall>a \<in> set cands. score_key h' a \<noteq> NaN \<Longrightarrow>
         filter (\<lambda>a. score_key h' a = v) ranked = filter (\<lambda>a. score_key h' a = v) cands"
  unfolding rank_routes_Inr[OF assms]
  using sorted_reverse_spec[of cands "score_key h'"]
  by (simp_all add: mset_sorted_reverse)

text \<open>
  Claim C3 as amended: when the scorer answers, the returned list holds the
  same addresses as the input list, each as often (the same dictionaries, by
  identity). When none of the sort keys read from the heap after ranking is
  NaN, the keys never increase along the returned list (each is \<open>>=\<close> every
  later one), and for every key value the candidates with that key appear in
  their input order.
\<close>

theorem rank_routes_stable_descending:
  assumes "rank_routes m cands (h, lg) = (Inr ranked, h', lg')"
  shows "mset ranked = mset cands \<and>
         ((\<forall>a \<in> set cands. score_key h' a \<noteq> NaN) \<longrightarrow>
            sorted_wrt (\<lambda>a b. float_ge (score_key h' a) (score_key h' b)) ranked \<and>
            (\<forall>v. filter (\<lambda>a. score_key h' a = v) ranked = filter (\<lambda>a. score_key h' a = v) cands))"
  unfolding rank_routes_Inr[OF assms]
  using sorted_reverse_spec[of cands "score_key h'"]
  by (simp add: mset_sorted_reverse)

text \<open>
  Claim C8 (empty input): on the empty candidate list \<open>rank_routes\<close> returns the
  empty list, leaves the heap as it is and adds nothing to the log of scorer
  calls.
\<close>

theorem rank_routes_empty:
  "rank_routes m [] (h, lg) = (Inr [], h, lg)"
  by (simp add: rank_routes_def)

lemma rank_routes_heap:
  assumes "rank_routes m cands (h, lg) = (res, h', lg')"
  shows "\<exists>zs. h' = write_scores h zs"
proof -
  have e: "\<And>g. \<exists>zs. g = write_scores g zs"
  proof -
    fix g :: heap
    have "g = write_scores g []" by simp
    then show "\<exists>zs. g = write_scores g zs" ..
  qed
  from assms show ?thesis
    by (auto simp: rank_routes_def Let_def e split: if_splits option.splits)
qed

text \<open>
  Claim C10 (frame of ranking): whatever the scorer answers, every dictionary of
  the heap has after \<open>rank_routes\<close> the id, route_info, waypoints, metadata and
  criteria it had before; only \<open>score\<close> may differ.
\<close>

theorem rank_routes_frame:
  assumes "rank_routes m cands (h, lg) = (res, h', lg')"
  shows "route_id (h' a) = route_id (h a) \<and> route_info (h' a) = route_info (h a) \<and>
         waypoints (h' a) = waypoints (h a) \<and> metadata (h' a) = metadata (h a) \<and>
         criteria (h' a) = criteria (h a)"
proof -
  from rank_routes_heap[OF assms] obtain zs where "h' = write_scores h zs" by blast
  then have "(h' a)\<lparr>score := None\<rparr> = (h a)\<lparr>score := None\<rparr>"
    by (simp add: write_scores_frame)
  then show ?thesis
    by (metis route.select_convs(1-5) route.surjective route.update_convs(6))
qed

lemma score_key_heap1:
  "score_key heap1 0 = Fin (9 / 10)" "score_key heap1 (Suc 0) = Fin (4 / 10)" "score_key heap1 2 = Fin (7 / 10)"
  by (simp_all add: score_key_def heap1_def scores0_def)

lemma sorted_heap1: "sorted_reverse (score_key heap1) [0, 1, 2] = [0, 2, 1]"
  by (simp add: sorted_reverse_def list_sort_def score_key_heap1 bisect.simps Let_def)

lemma score_key_heap_inf:
  "score_key heap_inf 0 = Fin 1" "score_key heap_inf (Suc 0) = PosInf"
  by (simp_all add: score_key_def heap_inf_def scores_inf_def)

lemma sorted_heap_inf: "sorted_reverse (score_key heap_inf) [0, 1] = [1, 0]"
  by (simp add: sorted_reverse_def list_sort_def score_key_heap_inf bisect.simps Let_def)

lemma score_key_heap_nan:
  "score_key heap_nan 0 = Fin 1" "score_key heap_nan (Suc 0) = Fin 2"
  "score_key heap_nan 2 = NaN" "score_key heap_nan 3 = Fin 3"
  by (simp_all add: score_key_def heap_nan_def scores_nan_def)

lemma sorted_heap_nan: "sorted_reverse (score_key heap_nan) [0, 1, 2, 3] = [1, 0, 2, 3]"
  by (simp add: sorted_reverse_def list_sort_def score_key_heap_nan bisect.simps Let_def)

lemma score_key_heap_nan_inf:
  "score_key heap_nan_inf 0 = NaN" "score_key heap_nan_inf (Suc 0) = PosInf"
  by (simp_all add: score_key_def heap_nan_inf_def scores_nan_inf_def)

lemma sorted_heap_nan_inf: "sorted_reverse (score_key heap_nan_inf) [0, 1] = [0, 1]"
  by (simp add: sorted_reverse_def list_sort_def score_key_heap_nan_inf bisect.simps Let_def)

lemma rank_heap0:
  "rank_routes (fixed_scorer scores0) [0, 1, 2] (heap0, []) =
     (Inr [0, 2, 1], heap1, [PredictBatch (map heap0 [0, 1, 2])])"
  using sorted_heap1
  by (simp add: rank_routes_def fixed_scorer_def Let_def heap1_def)

lemma rank_heap_inf:
  "rank_routes (fixed_scorer scores_inf) [0, 1] (heap0, []) =
     (Inr [1, 0], heap_inf, [PredictBatch (map heap0 [0, 1])])"
  using sorted_heap_inf
  by (simp add: rank_routes_def fixed_scorer_def Let_def heap_inf_def)

lemma rank_heap_nan:
  "rank_routes (fixed_scorer scores_nan) [0, 1, 2, 3] (heap0, []) =
     (Inr [1, 0, 2, 3], heap_nan, [PredictBatch (map heap0 [0, 1, 2, 3])])"
  using sorted_heap_nan
  by (simp add: rank_routes_def fixed_scorer_def Let_def heap_nan_def)

lemma rank_heap_nan_inf:
  "rank_routes (fixed_scorer scores_nan_inf) [0, 1] (heap0, []) =
     (Inr [0, 1], heap_nan_inf, [PredictBatch (map heap0 [0, 1])])"
  using sorted_heap_nan_inf
  by (simp add: rank_routes_def fixed_scorer_def Let_def heap_nan_inf_def)

text \<open>
  Claim C3 (the scores of the result always descend) does not hold: with scores
  1, 2, NaN, 3 the result is the candidates scored 2, 1, NaN, 3. The score 1
  stands before the score 3, and no comparison with NaN holds.
\<close>

theorem rank_routes_nan_not_descending_counterexample:
  "rank_routes (fixed_scorer scores_nan) [0, 1, 2, 3] (heap0, []) =
     (Inr [1, 0, 2, 3], heap_nan, [PredictBatch (map heap0 [0, 1, 2, 3])]) \<and>
   score_key heap_nan 1 = Fin 2 \<and> score_key heap_nan 0 = Fin 1 \<and>
   score_key heap_nan 2 = NaN \<and> score_key heap_nan 3 = Fin 3 \<and>
   \<not> float_ge (score_key heap_nan 0) (score_key heap_nan 3) \<and>
   \<not> float_ge (score_key heap_nan 0) (score_key heap_nan 2)"
  using rank_heap_nan by (simp add: score_key_heap_nan float_ge_def)

theorem rank_routes_stable_descending_witness:
  "mset [0, 2, 1] = mset [0, 1, 2 :: addr] \<and>
   sorted_wrt (\<lambda>a b. float_ge (score_key heap1 a) (score_key heap1 b)) [0, 2, 1] \<and>
   (\<forall>v. filter (\<lambda>a. score_key heap1 a = v) [0, 2, 1] = filter (\<lambda>a. score_key heap1 a = v) [0, 1, 2])"
proof -
  have nn: "\<forall>a \<in> set [0, 1, 2]. score_key heap1 a \<noteq> NaN"
    by (simp add: score_key_heap1)
  from rank_routes_stable_descending[OF rank_heap0] nn show ?thesis by blast
qed

text \<open>
  Claim C5 (a non-finite score ranks last) does not hold: with scores 1 and
  +infinity the candidate scored +infinity comes first, and with scores NaN and
  +infinity the candidate scored NaN comes first.
\<close>

theorem rank_routes_infinite_first_counterexample:
  "rank_routes (fixed_scorer scores_inf) [0, 1] (heap0, []) =
     (Inr [1, 0], heap_inf, [PredictBatch (map heap0 [0, 1])]) \<and>
   score (heap_inf 1) = Some PosInf \<and> score (heap_inf 0) = Some (Fin 1) \<and>
   last [1, 0 :: addr] \<noteq> 1 \<and>
   rank_routes (fixed_scorer scores_nan_inf) [0, 1] (heap0, []) =
     (Inr [0, 1], heap_nan_inf, [PredictBatch (map heap0 [0, 1])]) \<and>
   score (heap_nan_inf 0) = Some NaN \<and> score (heap_nan_inf 1) = Some PosInf \<and>
   last [0, 1 :: addr] \<noteq> 0"
proof -
  have "score (heap_inf 1) = Some PosInf" "score (heap_inf 0) = Some (Fin 1)"
    by (simp_all add: heap_inf_def scores_inf_def)
  moreover have "score (heap_nan_inf 0) = Some NaN" "score (heap_nan_inf 1) = Some PosInf"
    by (simp_all add: heap_nan_inf_def scores_nan_inf_def)
  ultimately show ?thesis using rank_heap_inf rank_heap_nan_inf by simp
qed

lemma float_ge_PosInf: "float_ge s PosInf \<Longrightarrow> s = PosInf"
  by (cases s) (simp_all add: float_ge_def)

lemma float_ge_NegInf: "float_ge NegInf s \<Longrightarrow> s = NegInf"
  by (cases s) (simp_all add: float_ge_def)

lemma descending_hd:
  assumes "sorted_wrt (\<lambda>a b. float_ge (k a) (k b)) xs" and "a \<in> set xs" and "k a = PosInf"
  shows "k (hd xs) = PosInf"
proof (cases xs)
  case Nil
  with assms(2) show ?thesis by simp
next
  case (Cons y ys)
  show ?thesis
  proof (cases "a = y")
    case True
    with Cons assms(3) show ?thesis by simp
  next
    case False
    with Cons assms(1,2) have "float_ge (k y) (k a)" by auto
    with assms(3) Cons show ?thesis by (simp add: float_ge_PosInf)
  qed
qed

lemma descending_last:
  assumes "sorted_wrt (\<lambda>a b. float_ge (k a) (k b)) xs" and "a \<in> set xs" and "k a = NegInf"
  shows "k (last xs) = NegInf"
  using assms(1,2)
proof (induction xs)
  case Nil
  then show ?case by simp
next
  case (Cons x xs)
  show ?case
  proof (cases "xs = []")
    case True
    with Cons.prems assms(3) show ?thesis by simp
  next
    case False
    then have l: "last xs \<in> set xs" by simp
    from Cons.prems(1) have s: "sorted_wrt (\<lambda>a b. float_ge (k a) (k b)) xs" and
      h: "\<forall>y \<in> set xs. float_ge (k x) (k y)" by simp_all
    show ?thesis
    proof (cases "a \<in> set xs")
      case True
      with Cons.IH[OF s] False show ?thesis by simp
    next
      case ne: False
      with Cons.prems(2) have "a = x" by simp
      with h l assms(3) have "float_ge NegInf (k (last xs))" by auto
      then have "k (last xs) = NegInf" by (rule float_ge_NegInf)
      with False show ?thesis by simp
    qed
  qed
qed

text \<open>
  Claim C5 as amended: \<open>rank_routes\<close> gives a non-finite score no rank of its
  own. When no sort key is NaN, the keys are ordered as floats are: if some
  candidate is scored -infinity, the last candidate of the result has score
  -infinity; if some candidate is scored +infinity, the first candidate of the
  result has score +infinity.
\<close>

theorem rank_routes_infinite_scores:
  assumes "rank_routes m cands (h, lg) = (Inr ranked, h', lg')"
    and "\<forall>a \<in> set cands. score_key h' a \<noteq> NaN"
    and "a \<in> set cands"
  shows "(score_key h' a = PosInf \<longrightarrow> score_key h' (hd ranked) = PosInf) \<and>
         (score_key h' a = NegInf \<longrightarrow> score_key h' (last ranked) = NegInf)"
proof -
  note r = rank_routes_sorted_perm[OF assms(1)]
  from r(1) assms(3) have m: "a \<in> set ranked" by (metis set_mset_mset)
  from r(2)[OF assms(2)]
  have s: "sorted_wrt (\<lambda>a b. float_ge (score_key h' a) (score_key h' b)) ranked" .
  from descending_hd[OF s m] descending_last[OF s m] show ?thesis by blast
qed

theorem rank_routes_infinite_scores_witness:
  "score_key heap_inf 1 = PosInf \<and> score_key heap_inf 0 = Fin 1 \<and>
   score_key heap_inf (hd [1, 0]) = PosInf"
proof -
  have m: "(1::addr) \<in> set [0, 1]" by simp
  have nn: "\<forall>a \<in> set [0, 1]. score_key heap_inf a \<noteq> NaN" by (simp add: score_key_heap_inf)
  from rank_routes_infinite_scores[OF rank_heap_inf nn m] score_key_heap_inf show ?thesis by simp
qed

theorem rank_routes_frame_witness:
  "route_id (heap1 1) = route_id (heap0 1) \<and> route_info (heap1 1) = route_info (heap0 1) \<and>
   waypoints (heap1 1) = waypoints (heap0 1) \<and> metadata (heap1 1) = metadata (heap0 1) \<and>
   criteria (heap1 1) = criteria (heap0 1) \<and> score (heap0 1) = None \<and>
   score (heap1 1) = Some (Fin (4 / 10))"
proof -
  have "score (heap0 1) = None" by (simp add: heap0_def route_candidate_def)
  moreover have "score (heap1 1) = Some (Fin (4 / 10))" by (simp add: heap1_def scores0_def)
  ultimately show ?thesis using rank_routes_frame[OF rank_heap0, of 1] by simp
qed

section \<open>Verified properties: generation and orchestration\<close>

lemma optimize_two_opt_mset:
  assumes "optimize_waypoint_order_by_two_opt ws = Some out"
  shows "mset out = mset ws"
proof (cases "length ws < 4")
  case True
  with assms show ?thesis by (simp add: optimize_waypoint_order_by_two_opt_def)
next
  case False
  with assms have "two_opt_loop ws = Some out" by (simp add: optimize_waypoint_order_by_two_opt_def)
  then show ?thesis using two_opt_loop_post by blast
qed

lemma optimize_by_angle_mset:
  assumes "optimize_waypoint_order_by_angle e c ws = Some out"
  shows "mset out = mset ws"
proof (cases "length ws \<le> 1")
  case True
  with assms show ?thesis by (simp add: optimize_waypoint_order_by_angle_def)
next
  case False
  with assms have "mset out = mset (sort_key (\<lambda>wp. calculate_bearing e (fst c) (snd c) (lat wp) (lng wp)) ws)"
    by (simp add: optimize_waypoint_order_by_angle_def optimize_two_opt_mset)
  then show ?thesis by simp
qed

lemma optimize_by_angle_short:
  assumes "length ws < 4"
  shows "\<exists>out. optimize_waypoint_order_by_angle e c ws = Some out"
  using assms
  by (simp add: optimize_waypoint_order_by_angle_def optimize_waypoint_order_by_two_opt_def)

lemma route_attempt_Some:
  assumes "route_attempt e crit pool route_idx = Some (Some c)"
  shows "\<exists>out rd. optimize_waypoint_order_by_angle e (center crit) (select_waypoints e pool route_idx) = Some out
           \<and> c = route_candidate crit route_idx out rd"
proof (cases "optimize_waypoint_order_by_angle e (center crit) (select_waypoints e pool route_idx)")
  case None
  with assms show ?thesis by (simp add: route_attempt_def)
next
  case (Some out)
  show ?thesis
  proof (cases "get_directions e route_idx (center crit) (map place_id out)")
    case DirRaise
    with Some assms show ?thesis by (simp add: route_attempt_def)
  next
    case (DirReturn r)
    show ?thesis
    proof (cases r)
      case None
      with DirReturn Some assms show ?thesis by (simp add: route_attempt_def)
    next
      case (Some rd)
      with DirReturn \<open>optimize_waypoint_order_by_angle e (center crit) (select_waypoints e pool route_idx) = Some out\<close> assms
      have "c = route_candidate crit route_idx out rd" by (simp add: route_attempt_def)
      with \<open>optimize_waypoint_order_by_angle e (center crit) (select_waypoints e pool route_idx) = Some out\<close>
      show ?thesis by blast
    qed
  qed
qed

text \<open>
  Claim C6 as amended: a candidate built by a successful attempt has no score
  (the key is absent until \<open>rank_routes\<close> writes it), its waypoints are the
  selected waypoints in some order, and its \<open>categories_used\<close> is the set of
  the search categories of the selected waypoints.
\<close>

theorem route_attempt_candidate:
  assumes "route_attempt e crit pool route_idx = Some (Some c)"
  shows "score c = None \<and>
         mset (places (waypoints c)) = mset (select_waypoints e pool route_idx) \<and>
         categories_used (metadata c) = set (map search_category (select_waypoints e pool route_idx))"
proof -
  from route_attempt_Some[OF assms] obtain out rd where
    o: "optimize_waypoint_order_by_angle e (center crit) (select_waypoints e pool route_idx) = Some out"
    and c: "c = route_candidate crit route_idx out rd" by blast
  from o have m: "mset out = mset (select_waypoints e pool route_idx)" by (rule optimize_by_angle_mset)
  then have "set out = set (select_waypoints e pool route_idx)" by (rule mset_eq_setD)
  moreover have "score c = None" "places (waypoints c) = out"
    "categories_used (metadata c) = set (map search_category out)"
    unfolding c by (simp_all add: route_candidate_def)
  ultimately show ?thesis using m by (simp only: set_map)
qed

lemma select_waypoints_length:
  assumes "valid_random e pool max_routes" and "route_idx < max_routes"
  shows "(randint e route_idx = 2 \<or> randint e route_idx = 3) \<and>
         length (select_waypoints e pool route_idx) = min (randint e route_idx) (length pool)"
proof -
  from assms(2) have "route_idx \<in> set [0 ..< max_routes]" by simp
  with assms(1) have r: "randint e route_idx = 2 \<or> randint e route_idx = 3"
    and s: "randint e route_idx \<le> length pool \<longrightarrow>
           length (sample e route_idx pool (randint e route_idx)) = randint e route_idx"
    unfolding valid_random_def by blast+
  have "length (select_waypoints e pool route_idx) = min (randint e route_idx) (length pool)"
  proof (cases "length pool < randint e route_idx")
    case True
    then show ?thesis by (simp add: select_waypoints_def)
  next
    case False
    with s show ?thesis by (simp add: select_waypoints_def)
  qed
  with r show ?thesis by simp
qed

text \<open>
  Claim C7 as amended: with a random source that keeps its contract, the number
  of waypoints of a candidate is \<open>min k (length pool)\<close>, where \<open>k\<close> is the
  number drawn from 2 and 3; it is 2 or 3 whenever the pool holds at least two
  places. \<open>count\<close> is the length of \<open>places\<close>.
\<close>

theorem route_attempt_waypoint_count:
  assumes "valid_random e pool max_routes" and "route_idx < max_routes"
    and "route_attempt e crit pool route_idx = Some (Some c)"
  shows "count_wp (waypoints c) = length (places (waypoints c)) \<and>
         count_wp (waypoints c) = min (randint e route_idx) (length pool) \<and>
         (randint e route_idx = 2 \<or> randint e route_idx = 3) \<and>
         (2 \<le> length pool \<longrightarrow> count_wp (waypoints c) = 2 \<or> count_wp (waypoints c) = 3)"
proof -
  from route_attempt_Some[OF assms(3)] obtain out rd where
    o: "optimize_waypoint_order_by_angle e (center crit) (select_waypoints e pool route_idx) = Some out"
    and c: "c = route_candidate crit route_idx out rd" by blast
  from o have "mset out = mset (select_waypoints e pool route_idx)" by (rule optimize_by_angle_mset)
  then have "length out = length (select_waypoints e pool route_idx)" by (rule mset_eq_length)
  moreover have "count_wp (waypoints c) = length out" "places (waypoints c) = out"
    unfolding c by (simp_all add: route_candidate_def)
  moreover note select_waypoints_length[OF assms(1,2)]
  ultimately show ?thesis by auto
qed

lemma string_of_nat_0: "string_of_nat 0 = ''0''"
  by code_simp

lemma build_response_Nil: "build_response [] = empty_response"
  by (simp add: build_response_def empty_response_def string_of_nat_0 del: string_of_nat.simps)

lemma empty_response_fields:
  "success empty_response \<and> routes empty_response = [] \<and> total_count empty_response = 0"
  by (simp add: empty_response_def)

lemma generate_routes_of_Nil:
  assumes "generate_candidate_routes e crit 20 = Some []"
  shows "generate_routes e m crit = Some (Inr empty_response)"
  using assms by (simp add: generate_routes_def build_response_Nil)

lemma route_attempt_dropped:
  assumes "length (select_waypoints e pool idx) < 4"
    and "\<forall>ids rd. get_directions e idx (center crit) ids \<noteq> DirReturn (Some rd)"
  shows "route_attempt e crit pool idx = Some None"
proof -
  from optimize_by_angle_short[OF assms(1)] obtain out where
    o: "optimize_waypoint_order_by_angle e (center crit) (select_waypoints e pool idx) = Some out"
    by blast
  show ?thesis
  proof (cases "get_directions e idx (center crit) (map place_id out)")
    case DirRaise
    with o show ?thesis by (simp add: route_attempt_def)
  next
    case (DirReturn r)
    with assms(2) have "r = None" by (cases r) auto
    with DirReturn o show ?thesis by (simp add: route_attempt_def)
  qed
qed

lemma attempts_dropped:
  "(\<forall>idx \<in> set idxs. route_attempt e crit pool idx = Some None) \<Longrightarrow>
     attempts e crit pool idxs acc = Some acc"
  by (induction idxs) simp_all

lemma generate_candidates_all_fail:
  assumes v: "valid_random e (all_waypoint_candidates e crit) max_routes"
    and d: "\<forall>idx ids rd. get_directions e idx (center crit) ids \<noteq> DirReturn (Some rd)"
  shows "generate_candidate_routes e crit max_routes = Some []"
proof -
  let ?pool = "all_waypoint_candidates e crit"
  have "\<forall>idx \<in> set [0 ..< max_routes]. route_attempt e crit ?pool idx = Some None"
  proof
    fix idx assume "idx \<in> set [0 ..< max_routes]"
    then have "idx < max_routes" by simp
    from select_waypoints_length[OF v this]
    have "length (select_waypoints e ?pool idx) < 4" by auto
    moreover from d have "\<forall>ids rd. get_directions e idx (center crit) ids \<noteq> DirReturn (Some rd)"
      by blast
    ultimately show "route_attempt e crit ?pool idx = Some None" by (rule route_attempt_dropped)
  qed
  then have "attempts e crit ?pool [0 ..< max_routes] [] = Some []" by (rule attempts_dropped)
  then show ?thesis by (simp add: generate_candidate_routes_def Let_def)
qed

text \<open>
  Claim C4 (no candidates is a successful, empty result): when
  \<open>generate_candidate_routes\<close> returns the empty list, and in particular when
  the pool of places is empty, or when the random source keeps its contract and
  no directions call returns a route, \<open>generate_routes\<close> returns the response
  with \<open>success = True\<close>, no routes and \<open>total_count = 0\<close>; it neither
  raises nor fails to return.
\<close>

theorem generate_routes_no_candidates:
  "(generate_candidate_routes e crit 20 = Some [] \<longrightarrow>
      generate_routes e m crit = Some (Inr empty_response)) \<and>
   (all_waypoint_candidates e crit = [] \<longrightarrow>
      generate_routes e m crit = Some (Inr empty_response)) \<and>
   (valid_random e (all_waypoint_candidates e crit) 20 \<and>
    (\<forall>idx ids rd. get_directions e idx (center crit) ids \<noteq> DirReturn (Some rd)) \<longrightarrow>
      generate_routes e m crit = Some (Inr empty_response)) \<and>
   success empty_response \<and> routes empty_response = [] \<and> total_count empty_response = 0"
proof (intro conjI impI)
  assume "generate_candidate_routes e crit 20 = Some []"
  then show "generate_routes e m crit = Some (Inr empty_response)" by (rule generate_routes_of_Nil)
next
  assume "all_waypoint_candidates e crit = []"
  then have "generate_candidate_routes e crit 20 = Some []"
    by (simp add: generate_candidate_routes_def)
  then show "generate_routes e m crit = Some (Inr empty_response)" by (rule generate_routes_of_Nil)
next
  assume "valid_random e (all_waypoint_candidates e crit) 20 \<and>
    (\<forall>idx ids rd. get_directions e idx (center crit) ids \<noteq> DirReturn (Some rd))"
  then have "generate_candidate_routes e crit 20 = Some []"
    using generate_candidates_all_fail by blast
  then show "generate_routes e m crit = Some (Inr empty_response)" by (rule generate_routes_of_Nil)
qed (simp_all add: empty_response_def)

lemma pool_env_one: "all_waypoint_candidates env_one crit0 = pool_one"
  by (simp add: all_waypoint_candidates_def target_categories_def search_category_places_def
      env_one_def env_of_def pool_one_def mk_place_def)

lemma pool_env_two: "all_waypoint_candidates env_two crit0 = pool_two"
  by (simp add: all_waypoint_candidates_def target_categories_def search_category_places_def
      env_two_def env_of_def pool_two_def mk_place_def)

lemma pool_env_empty: "all_waypoint_candidates env_empty crit0 = []"
  by (simp add: all_waypoint_candidates_def target_categories_def search_category_places_def
      env_empty_def env_of_def)

lemma pool_env_fail: "all_waypoint_candidates env_fail crit0 = pool_one"
  by (simp add: all_waypoint_candidates_def target_categories_def search_category_places_def
      env_fail_def env_of_def pool_one_def mk_place_def)

lemma valid_random_env_of: "valid_random (env_of s d) pool n"
  by (simp add: valid_random_def env_of_def set_take_subset)

lemma select_env_one: "select_waypoints env_one pool_one 0 = pool_one"
  by (simp add: select_waypoints_def env_one_def env_of_def pool_one_def)

lemma select_env_two: "select_waypoints env_two pool_two 0 = pool_two"
  by (simp add: select_waypoints_def env_two_def env_of_def pool_two_def)

lemma angle_env_one: "optimize_waypoint_order_by_angle env_one (center crit0) pool_one = Some pool_one"
  by (simp add: optimize_waypoint_order_by_angle_def pool_one_def)

lemma angle_env_two: "optimize_waypoint_order_by_angle env_two (center crit0) pool_two = Some pool_two"
proof -
  have "sort_key (\<lambda>wp. calculate_bearing env_two (fst (center crit0)) (snd (center crit0)) (lat wp) (lng wp)) pool_two
        = pool_two"
    by (simp add: env_two_def env_of_def pool_two_def mk_place_def)
  moreover have "length pool_two = 2" by (simp add: pool_two_def)
  ultimately show ?thesis
    by (simp add: optimize_waypoint_order_by_angle_def optimize_waypoint_order_by_two_opt_def)
qed

lemma attempt_env_one:
  "route_attempt env_one crit0 pool_one 0 = Some (Some (route_candidate crit0 0 pool_one rd0))"
proof -
  have "get_directions env_one 0 (center crit0) (map place_id pool_one) = DirReturn (Some rd0)"
    by (simp add: env_one_def env_of_def)
  then show ?thesis
    by (simp add: route_attempt_def select_env_one angle_env_one)
qed

lemma attempt_env_two:
  "route_attempt env_two crit0 pool_two 0 = Some (Some (route_candidate crit0 0 pool_two rd0))"
proof -
  have "get_directions env_two 0 (center crit0) (map place_id pool_two) = DirReturn (Some rd0)"
    by (simp add: env_two_def env_of_def)
  then show ?thesis
    by (simp add: route_attempt_def select_env_two angle_env_two)
qed

text \<open>
  Claim C6 (the score of a new candidate is initialised to a neutral default)
  does not hold: the candidate of a successful attempt carries no score.
\<close>

theorem route_attempt_candidate_counterexample:
  "route_attempt env_two crit0 pool_two 0 = Some (Some (route_candidate crit0 0 pool_two rd0)) \<and>
   score (route_candidate crit0 0 pool_two rd0) = None"
  using attempt_env_two by (simp add: route_candidate_def)

theorem route_attempt_candidate_witness:
  "score (route_candidate crit0 0 pool_two rd0) = None \<and>
   mset (places (waypoints (route_candidate crit0 0 pool_two rd0))) = mset pool_two \<and>
   categories_used (metadata (route_candidate crit0 0 pool_two rd0)) = {''park'', ''restaurant''}"
proof -
  have "set (map search_category pool_two) = {''park'', ''restaurant''}"
    by (simp add: pool_two_def mk_place_def)
  with route_attempt_candidate[OF attempt_env_two] show ?thesis
    by (simp only: select_env_two)
qed

text \<open>
  Claim C7 (every candidate has 2 or 3 waypoints) does not hold: when the search
  finds a single place, the branch that uses all available places builds a
  candidate with one waypoint.
\<close>

theorem route_attempt_single_waypoint_counterexample:
  "all_waypoint_candidates env_one crit0 = pool_one \<and>
   valid_random env_one pool_one 20 \<and>
   route_attempt env_one crit0 pool_one 0 = Some (Some (route_candidate crit0 0 pool_one rd0)) \<and>
   count_wp (waypoints (route_candidate crit0 0 pool_one rd0)) = 1 \<and>
   length (places (waypoints (route_candidate crit0 0 pool_one rd0))) = 1"
proof -
  have "valid_random env_one pool_one 20" unfolding env_one_def by (rule valid_random_env_of)
  moreover have "count_wp (waypoints (route_candidate crit0 0 pool_one rd0)) = 1"
    "length (places (waypoints (route_candidate crit0 0 pool_one rd0))) = 1"
    by (simp_all add: route_candidate_def pool_one_def)
  ultimately show ?thesis using pool_env_one attempt_env_one by simp
qed

theorem route_attempt_waypoint_count_witness:
  "valid_random env_two pool_two 20 \<and> (0::nat) < 20 \<and>
   route_attempt env_two crit0 pool_two 0 = Some (Some (route_candidate crit0 0 pool_two rd0)) \<and>
   length pool_two = 2 \<and>
   count_wp (waypoints (route_candidate crit0 0 pool_two rd0)) = 2"
proof -
  have v: "valid_random env_two pool_two 20" unfolding env_two_def by (rule valid_random_env_of)
  have l: "length pool_two = 2" by (simp add: pool_two_def)
  have r: "randint env_two 0 = 2" by (simp add: env_two_def env_of_def)
  have z: "(0::nat) < 20" by simp
  from route_attempt_waypoint_count[OF v z attempt_env_two]
  have "count_wp (waypoints (route_candidate crit0 0 pool_two rd0)) = min (randint env_two 0) (length pool_two)"
    by blast
  with v l r attempt_env_two show ?thesis by simp
qed

theorem generate_routes_no_candidates_witness:
  "all_waypoint_candidates env_empty crit0 = [] \<and>
   generate_routes env_empty (fixed_scorer []) crit0 = Some (Inr empty_response) \<and>
   valid_random env_fail (all_waypoint_candidates env_fail crit0) 20 \<and>
   generate_routes env_fail (fixed_scorer []) crit0 = Some (Inr empty_response)"
proof -
  note t = generate_routes_no_candidates[of env_empty crit0 "fixed_scorer []"]
  note u = generate_routes_no_candidates[of env_fail crit0 "fixed_scorer []"]
  have v: "valid_random env_fail (all_waypoint_candidates env_fail crit0) 20"
    unfolding env_fail_def by (rule valid_random_env_of)
  have d: "\<forall>idx ids rd. get_directions env_fail idx (center crit0) ids \<noteq> DirReturn (Some rd)"
    by (simp add: env_fail_def env_of_def)
  from t pool_env_empty have "generate_routes env_empty (fixed_scorer []) crit0 = Some (Inr empty_response)"
    by blast
  moreover from u v d have "generate_routes env_fail (fixed_scorer []) crit0 = Some (Inr empty_response)"
    by blast
  ultimately show ?thesis using pool_env_empty v by simp
qed

end
